theory Spec2Isabelle
  imports Main
begin

section \<open>Text: Python strings, Unicode tables, searching\<close>

text \<open>
  A Python \<^verbatim>\<open>str\<close> is a sequence of Unicode code points, so a string of the program is a
  list of code points (natural numbers). \<open>lit\<close> embeds an ASCII literal of the source.
\<close>

type_synonym str = "nat list"

definition lit :: "string \<Rightarrow> str" where
  "lit s = map of_char s"

text \<open>
  The program consults the Unicode tables of the Python runtime through \<^verbatim>\<open>str.lower\<close>,
  \<^verbatim>\<open>int\<close> and the classes \<^verbatim>\<open>\d\<close>, \<^verbatim>\<open>\s\<close>, \<^verbatim>\<open>\w\<close>/\<^verbatim>\<open>\b\<close> of \<^verbatim>\<open>re\<close>. The tables are not
  part of the program; they are a parameter of every function that uses them.
  \<^item> \<open>uc_decimal c\<close> is the digit value of a code point of category Nd, \<open>None\<close> for any
    other code point: \<^verbatim>\<open>\d\<close> matches exactly the code points with a digit value, and
    \<^verbatim>\<open>int\<close> reads the same ones;
  \<^item> \<open>uc_alpha c\<close> holds for the other alphanumeric code points (letters, numerics);
    \<^verbatim>\<open>\w\<close> matches a decimal digit, an alphanumeric code point or the underscore;
  \<^item> \<open>uc_space c\<close> holds for the code points matched by \<^verbatim>\<open>\s\<close>;
  \<^item> \<open>uc_lower s\<close> is \<^verbatim>\<open>s.lower()\<close>, a function of the whole string (it may change the
    length of a string outside ASCII).
\<close>

record unicode =
  uc_decimal :: "nat \<Rightarrow> nat option"
  uc_alpha :: "nat \<Rightarrow> bool"
  uc_space :: "nat \<Rightarrow> bool"
  uc_lower :: "str \<Rightarrow> str"

definition is_digit :: "unicode \<Rightarrow> nat \<Rightarrow> bool" where
  "is_digit U c = (uc_decimal U c \<noteq> None)"

definition is_word :: "unicode \<Rightarrow> nat \<Rightarrow> bool" where
  "is_word U c = (is_digit U c \<or> uc_alpha U c \<or> c = 95)"

text \<open>The tables restricted to ASCII, for running the program on ASCII text.\<close>

definition ascii_decimal :: "nat \<Rightarrow> nat option" where
  "ascii_decimal c = (if 48 \<le> c \<and> c \<le> 57 then Some (c - 48) else None)"

definition ascii_alpha :: "nat \<Rightarrow> bool" where
  "ascii_alpha c = ((65 \<le> c \<and> c \<le> 90) \<or> (97 \<le> c \<and> c \<le> 122))"

definition ascii_space :: "nat \<Rightarrow> bool" where
  "ascii_space c = (c = 32 \<or> (9 \<le> c \<and> c \<le> 13) \<or> (28 \<le> c \<and> c \<le> 31))"

definition ascii_lower_char :: "nat \<Rightarrow> nat" where
  "ascii_lower_char c = (if 65 \<le> c \<and> c \<le> 90 then c + 32 else c)"

definition ascii :: unicode where
  "ascii = \<lparr>uc_decimal = ascii_decimal, uc_alpha = ascii_alpha,
            uc_space = ascii_space, uc_lower = map ascii_lower_char\<rparr>"

subsection \<open>Substring test and search\<close>

text \<open>
  \<^verbatim>\<open>needle in hay\<close> and \<^verbatim>\<open>hay.find(needle)\<close>: the positions of \<open>hay\<close> are tried from the
  left; \<^verbatim>\<open>find\<close> returns the first position where \<open>needle\<close> starts, or \<open>-1\<close>.
\<close>

definition starts_with :: "str \<Rightarrow> str \<Rightarrow> bool" where
  "starts_with hay needle = (take (length needle) hay = needle)"

fun contains :: "str \<Rightarrow> str \<Rightarrow> bool" where
  "contains [] needle = (needle = [])"
| "contains (c # cs) needle = (starts_with (c # cs) needle \<or> contains cs needle)"

fun find_from :: "str \<Rightarrow> str \<Rightarrow> nat option" where
  "find_from [] needle = (if needle = [] then Some 0 else None)"
| "find_from (c # cs) needle =
     (if starts_with (c # cs) needle then Some 0
      else map_option Suc (find_from cs needle))"

definition py_find :: "str \<Rightarrow> str \<Rightarrow> int" where
  "py_find hay needle = (case find_from hay needle of None \<Rightarrow> - 1 | Some k \<Rightarrow> int k)"

section \<open>Configuration\<close>

text \<open>
  The keys of \<^verbatim>\<open>config\<close> the monitor reads. \<^verbatim>\<open>storage.format\<close> and \<^verbatim>\<open>storage.quality\<close>
  are read with \<^verbatim>\<open>.get(key, default)\<close>, so they may be absent.
\<close>

datatype root = Rel | Root | Root2

datatype path = Path root "str list"

record config =
  trigger_keyword :: str
  save_dir :: path
  storage_format :: "str option"
  storage_quality :: "nat option"

section \<open>Trigger detector\<close>

text \<open>
  \<^verbatim>\<open>LiveMonitor.check_trigger\<close>: the loop over the lines returns at the first line whose
  lower-case form contains the lower-case keyword.
\<close>

fun trigger_loop :: "unicode \<Rightarrow> str \<Rightarrow> str list \<Rightarrow> bool" where
  "trigger_loop U keyword [] = False"
| "trigger_loop U keyword (line # rest) =
     (if contains (uc_lower U line) keyword then True else trigger_loop U keyword rest)"

definition check_trigger :: "unicode \<Rightarrow> config \<Rightarrow> str list \<Rightarrow> bool" where
  "check_trigger U cfg lines =
     (let keyword = uc_lower U (trigger_keyword cfg) in trigger_loop U keyword lines)"

section \<open>Regular expressions of the extractor\<close>

subsection \<open>The number pattern\<close>

text \<open>
  \<^verbatim>\<open>re.findall(r'\b(\d{1,4})\b', s)\<close>. The matcher is tried at each position from the left.
  \<^verbatim>\<open>\b\<close> holds where exactly one of the code point before and the code point at the
  position is a word character (the ends of the string count as non-word). \<^verbatim>\<open>\d{1,4}\<close>
  is greedy: four digits are tried first, then three, two and one, and the first length
  after which \<^verbatim>\<open>\b\<close> holds is taken. After a match the scan goes on behind it, after a
  failure at the next position. \<open>prev\<close> is the code point before the position.
\<close>

fun word_before :: "unicode \<Rightarrow> nat option \<Rightarrow> bool" where
  "word_before U None = False"
| "word_before U (Some c) = is_word U c"

fun word_here :: "unicode \<Rightarrow> str \<Rightarrow> bool" where
  "word_here U [] = False"
| "word_here U (c # cs) = is_word U c"

definition boundary :: "unicode \<Rightarrow> nat option \<Rightarrow> str \<Rightarrow> bool" where
  "boundary U prev s = (word_before U prev \<noteq> word_here U s)"

fun digits_then_boundary :: "unicode \<Rightarrow> str \<Rightarrow> nat \<Rightarrow> nat option" where
  "digits_then_boundary U s 0 = None"
| "digits_then_boundary U s (Suc k) =
     (if Suc k \<le> length s \<and> list_all (is_digit U) (take (Suc k) s)
         \<and> boundary U (Some (s ! k)) (drop (Suc k) s)
      then Some (Suc k)
      else digits_then_boundary U s k)"

definition match_number :: "unicode \<Rightarrow> nat option \<Rightarrow> str \<Rightarrow> nat option" where
  "match_number U prev s =
     (if boundary U prev s then digits_then_boundary U s (Suc (Suc (Suc (Suc 0)))) else None)"

lemma digits_then_boundary_Some:
  "digits_then_boundary U s n = Some k \<Longrightarrow>
     0 < k \<and> k \<le> n \<and> k \<le> length s \<and> list_all (is_digit U) (take k s)"
  by (induction n) (auto split: if_splits)

lemma match_number_Some:
  "match_number U prev s = Some k \<Longrightarrow>
     0 < k \<and> k \<le> 4 \<and> k \<le> length s \<and> list_all (is_digit U) (take k s)"
  using digits_then_boundary_Some [of U s "Suc (Suc (Suc (Suc 0)))" k]
  by (auto simp: match_number_def split: if_splits)

function findall_number :: "unicode \<Rightarrow> nat option \<Rightarrow> str \<Rightarrow> str list" where
  "findall_number U prev [] = []"
| "findall_number U prev (c # cs) =
     (case match_number U prev (c # cs) of
        None \<Rightarrow> findall_number U (Some c) cs
      | Some k \<Rightarrow>
          take k (c # cs)
            # findall_number U (Some ((c # cs) ! (k - 1))) (drop k (c # cs)))"
  by pat_completeness auto
termination
proof (relation "measure (\<lambda>(U, prev, s). length s)")
  show "wf (measure (\<lambda>(U, prev, s). length s))" by simp
next
  fix U :: unicode and prev :: "nat option" and c :: nat and cs :: str
  show "((U, Some c, cs), (U, prev, c # cs)) \<in> measure (\<lambda>(U, prev, s). length s)"
    by simp
next
  fix U :: unicode and prev :: "nat option" and c :: nat and cs :: str and k :: nat
  assume "match_number U prev (c # cs) = Some k"
  then have "0 < k" using match_number_Some by blast
  then show "((U, Some ((c # cs) ! (k - 1)), drop k (c # cs)), (U, prev, c # cs))
               \<in> measure (\<lambda>(U, prev, s). length s)"
    by simp
qed

definition findall_num :: "unicode \<Rightarrow> str \<Rightarrow> str list" where
  "findall_num U s = findall_number U None s"

subsection \<open>The ID patterns\<close>

text \<open>
  \<^verbatim>\<open>[Ii][Dd][\<close>U+FF1A\<^verbatim>\<open>:]\s*(\d+)\<close> and \<^verbatim>\<open>[Ii][Dd]\s+(\d+)\<close>. A matcher returns the captured
  group and the number of code points the whole match consumes. \<^verbatim>\<open>\s*\<close> is greedy with
  backtracking: one more space is consumed first, and only when the rest then fails are
  the digits tried at the current position. \<^verbatim>\<open>\d+\<close> takes the whole digit run; nothing
  follows it in the pattern.
\<close>

datatype id_pattern = IdColon | IdSpace

definition digits_here :: "unicode \<Rightarrow> str \<Rightarrow> (str \<times> nat) option" where
  "digits_here U s =
     (let ds = takeWhile (is_digit U) s in if ds = [] then None else Some (ds, length ds))"

fun spaces_digits :: "unicode \<Rightarrow> str \<Rightarrow> (str \<times> nat) option" where
  "spaces_digits U [] = None"
| "spaces_digits U (c # cs) =
     (if uc_space U c then
        (case spaces_digits U cs of
           Some (ds, n) \<Rightarrow> Some (ds, Suc n)
         | None \<Rightarrow> digits_here U (c # cs))
      else digits_here U (c # cs))"

fun match_id :: "unicode \<Rightarrow> id_pattern \<Rightarrow> str \<Rightarrow> (str \<times> nat) option" where
  "match_id U IdColon (i # d # c # rest) =
     (if (i = 73 \<or> i = 105) \<and> (d = 68 \<or> d = 100) \<and> (c = 65306 \<or> c = 58)
      then map_option (\<lambda>(ds, n). (ds, Suc (Suc (Suc n)))) (spaces_digits U rest)
      else None)"
| "match_id U IdSpace (i # d # c # rest) =
     (if (i = 73 \<or> i = 105) \<and> (d = 68 \<or> d = 100) \<and> uc_space U c
      then map_option (\<lambda>(ds, n). (ds, Suc (Suc (Suc n)))) (spaces_digits U rest)
      else None)"
| "match_id U pat s = None"

lemma match_id_Some: "match_id U pat s = Some (ds, n) \<Longrightarrow> 0 < n"
  by (induction U pat s rule: match_id.induct) (auto split: if_splits)

function findall_id :: "unicode \<Rightarrow> id_pattern \<Rightarrow> str \<Rightarrow> str list" where
  "findall_id U pat [] = []"
| "findall_id U pat (c # cs) =
     (case match_id U pat (c # cs) of
        None \<Rightarrow> findall_id U pat cs
      | Some (ds, n) \<Rightarrow> ds # findall_id U pat (drop n (c # cs)))"
  by pat_completeness auto
termination
proof (relation "measure (\<lambda>(U, pat, s). length s)")
  show "wf (measure (\<lambda>(U, pat, s). length s))" by simp
next
  fix U :: unicode and pat :: id_pattern and c :: nat and cs :: str
  show "((U, pat, cs), (U, pat, c # cs)) \<in> measure (\<lambda>(U, pat, s). length s)"
    by simp
next
  fix U :: unicode and pat :: id_pattern and c :: nat and cs :: str
    and x :: "str \<times> nat" and ds :: str and n :: nat
  assume "match_id U pat (c # cs) = Some x" and "(ds, n) = x"
  then have "0 < n" using match_id_Some by metis
  then show "((U, pat, drop n (c # cs)), (U, pat, c # cs))
               \<in> measure (\<lambda>(U, pat, s). length s)"
    by simp
qed

section \<open>Record extractor\<close>

text \<open>
  The dataclass \<^verbatim>\<open>ProductInfo\<close>. \<open>style_category\<close> is not a declared field: \<^verbatim>\<open>run_once\<close>
  sets it as an attribute of the object when a classifier is attached, so it is \<open>None\<close>
  (absent) on every record the extractor creates.
\<close>

record product_info =
  product_id :: str
  serial_number :: str
  label_date :: str
  raw_text :: str
  timestamp :: str
  filepath :: str
  style_category :: "str option"

definition unknown :: str where
  "unknown = lit ''unknown''"

subsection \<open>IDs\<close>

definition id_patterns :: "id_pattern list" where
  "id_patterns = [IdColon, IdSpace]"

definition join_lines :: "str list \<Rightarrow> str" where
  "join_lines lines = (case lines of [] \<Rightarrow> [] | l # ls \<Rightarrow> l @ concat (map (\<lambda>x. 32 # x) ls))"

definition all_ids :: "unicode \<Rightarrow> str list \<Rightarrow> str list" where
  "all_ids U lines =
     (let full_text = join_lines lines
      in concat (map (\<lambda>pattern. findall_id U pattern full_text) id_patterns))"

text \<open>The loop that removes repeated IDs, with its two variables \<open>seen_ids\<close>, \<open>unique_ids\<close>.\<close>

fun unique_ids_loop :: "str list \<Rightarrow> str set \<times> str list \<Rightarrow> str set \<times> str list" where
  "unique_ids_loop [] st = st"
| "unique_ids_loop (id_val # rest) (seen_ids, unique_ids) =
     (if id_val \<notin> seen_ids
      then unique_ids_loop rest (insert id_val seen_ids, unique_ids @ [id_val])
      else unique_ids_loop rest (seen_ids, unique_ids))"

definition unique_ids :: "unicode \<Rightarrow> str list \<Rightarrow> str list" where
  "unique_ids U lines = snd (unique_ids_loop (all_ids U lines) ({}, []))"

subsection \<open>Serial candidates\<close>

definition serial_keywords :: "str list" where
  "serial_keywords = [lit ''mtk'', lit ''yeye'']"

text \<open>
  The body of the loop over the marker keywords, for line \<open>i\<close> and one keyword:
  \<open>Some num\<close> when the body appends \<open>num\<close> to \<open>all_serials\<close> and breaks, \<open>None\<close> when it
  falls through to the next keyword. The slices are taken from \<open>line\<close>, at the position
  found in \<open>line_lower\<close>.
\<close>

definition search_keyword :: "unicode \<Rightarrow> str list \<Rightarrow> nat \<Rightarrow> str \<Rightarrow> str \<Rightarrow> str option" where
  "search_keyword U lines i line serial_keyword =
     (let line_lower = uc_lower U line in
      if contains line_lower serial_keyword then
        (let keyword_pos = py_find line_lower serial_keyword in
         if keyword_pos \<ge> 0 then
           (let after_keyword = drop (nat keyword_pos + length serial_keyword) line;
                numbers_after = findall_num U after_keyword
            in if numbers_after \<noteq> [] then Some (hd numbers_after)
               else
                 (let numbers_before =
                        (if keyword_pos > 0 then findall_num U (take (nat keyword_pos) line)
                         else [])
                  in if numbers_before \<noteq> [] then Some (last numbers_before)
                     else
                       (let numbers_prev =
                              (if i > 0 then findall_num U (lines ! (i - 1)) else [])
                        in if numbers_prev \<noteq> [] then Some (hd numbers_prev)
                           else
                             (let numbers_next =
                                    (if int i < int (length lines) - 1
                                     then findall_num U (lines ! (i + 1)) else [])
                              in if numbers_next \<noteq> [] then Some (hd numbers_next)
                                 else None))))
         else None)
      else None)"

fun keyword_loop ::
  "unicode \<Rightarrow> str list \<Rightarrow> nat \<Rightarrow> str \<Rightarrow> str list \<Rightarrow> str list \<Rightarrow> str list" where
  "keyword_loop U lines i line [] all_serials = all_serials"
| "keyword_loop U lines i line (serial_keyword # rest) all_serials =
     (case search_keyword U lines i line serial_keyword of
        Some num \<Rightarrow> all_serials @ [num]
      | None \<Rightarrow> keyword_loop U lines i line rest all_serials)"

fun line_loop :: "unicode \<Rightarrow> str list \<Rightarrow> (nat \<times> str) list \<Rightarrow> str list \<Rightarrow> str list" where
  "line_loop U lines [] all_serials = all_serials"
| "line_loop U lines ((i, line) # rest) all_serials =
     line_loop U lines rest (keyword_loop U lines i line serial_keywords all_serials)"

definition all_serials :: "unicode \<Rightarrow> str list \<Rightarrow> str list" where
  "all_serials U lines = line_loop U lines (enumerate 0 lines) []"

text \<open>
  \<^verbatim>\<open>int(s)\<close> on a run of decimal digits; \<open>None\<close> is \<^verbatim>\<open>ValueError\<close>. Every string the
  program passes to \<^verbatim>\<open>int\<close> was captured by \<^verbatim>\<open>(\d{1,4})\<close> (lemma \<open>all_serials_digits\<close>), so
  the signs, underscores and surrounding spaces that \<^verbatim>\<open>int\<close> also accepts never reach it.
\<close>

definition py_int :: "unicode \<Rightarrow> str \<Rightarrow> int option" where
  "py_int U s =
     (if s \<noteq> [] \<and> list_all (is_digit U) s
      then Some (foldl (\<lambda>a c. 10 * a + int (the (uc_decimal U c))) 0 s)
      else None)"

fun unique_serials_loop ::
  "unicode \<Rightarrow> str list \<Rightarrow> str set \<times> str list \<Rightarrow> str set \<times> str list" where
  "unique_serials_loop U [] st = st"
| "unique_serials_loop U (s # rest) (seen_serials, unique_serials) =
     (if s \<notin> seen_serials then
        (case py_int U s of
           None \<Rightarrow> unique_serials_loop U rest (seen_serials, unique_serials)
         | Some num_value \<Rightarrow>
             if 1 \<le> num_value \<and> num_value \<le> 9999
             then unique_serials_loop U rest (insert s seen_serials, unique_serials @ [s])
             else unique_serials_loop U rest (seen_serials, unique_serials))
      else unique_serials_loop U rest (seen_serials, unique_serials))"

definition unique_serials :: "unicode \<Rightarrow> str list \<Rightarrow> str list" where
  "unique_serials U lines = snd (unique_serials_loop U (all_serials U lines) ({}, []))"

subsection \<open>Pairing\<close>

text \<open>
  \<^verbatim>\<open>LiveMonitor.extract_all_products\<close>. \<open>ts\<close> and \<open>current_date\<close> are the two readings of
  the clock, already formatted (\<^verbatim>\<open>%Y%m%d_%H%M%S\<close> and \<^verbatim>\<open>%m-%d\<close>).
\<close>

definition new_product :: "str \<Rightarrow> str \<Rightarrow> str \<Rightarrow> str \<Rightarrow> str \<Rightarrow> product_info" where
  "new_product pid serial current_date text ts =
     \<lparr>product_id = pid, serial_number = serial, label_date = current_date,
      raw_text = text, timestamp = ts, filepath = [], style_category = None\<rparr>"

definition extract_all_products ::
  "unicode \<Rightarrow> str \<Rightarrow> str \<Rightarrow> str \<Rightarrow> str list \<Rightarrow> product_info list" where
  "extract_all_products U ts current_date text lines =
     (let ids = unique_ids U lines;
          serials = unique_serials U lines;
          products =
            map (\<lambda>(i, pid).
                   new_product pid (if i < length serials then serials ! i else unknown)
                     current_date text ts)
              (enumerate 0 ids)
      in if ids = [] \<and> serials \<noteq> []
         then products @ map (\<lambda>serial. new_product unknown serial current_date text ts) serials
         else products)"

section \<open>Paths and the file system\<close>

text \<open>
  \<^verbatim>\<open>pathlib\<close> on POSIX. A path is its root (none, \<^verbatim>\<open>/\<close>, or \<^verbatim>\<open>//\<close> for exactly two leading
  slashes) and its components. A string is split at \<^verbatim>\<open>/\<close>; empty components and \<^verbatim>\<open>.\<close> are
  dropped, \<^verbatim>\<open>..\<close> is kept. \<open>joinpath p s\<close> is \<^verbatim>\<open>p / s\<close>: a segment with a root replaces
  \<open>p\<close>. \<open>path_str\<close> is \<^verbatim>\<open>str(p)\<close>.
\<close>

fun split_on :: "nat \<Rightarrow> str \<Rightarrow> str list" where
  "split_on sep [] = [[]]"
| "split_on sep (c # cs) =
     (if c = sep then [] # split_on sep cs
      else (case split_on sep cs of [] \<Rightarrow> [[c]] | p # ps \<Rightarrow> (c # p) # ps))"

definition path_parts :: "str \<Rightarrow> str list" where
  "path_parts s = filter (\<lambda>p. p \<noteq> [] \<and> p \<noteq> [46]) (split_on 47 s)"

definition path_root :: "str \<Rightarrow> root" where
  "path_root s =
     (let n = length (takeWhile (\<lambda>c. c = 47) s)
      in if n = 0 then Rel else if n = 2 then Root2 else Root)"

fun joinpath :: "path \<Rightarrow> str \<Rightarrow> path" where
  "joinpath (Path r ps) s =
     (case path_root s of
        Rel \<Rightarrow> Path r (ps @ path_parts s)
      | Root \<Rightarrow> Path Root (path_parts s)
      | Root2 \<Rightarrow> Path Root2 (path_parts s))"

fun root_str :: "root \<Rightarrow> str" where
  "root_str Rel = []"
| "root_str Root = [47]"
| "root_str Root2 = [47, 47]"

fun join_parts :: "str list \<Rightarrow> str" where
  "join_parts [] = []"
| "join_parts [p] = p"
| "join_parts (p # q # ps) = p @ 47 # join_parts (q # ps)"

fun path_str :: "path \<Rightarrow> str" where
  "path_str (Path r ps) = (if r = Rel \<and> ps = [] then [46] else root_str r @ join_parts ps)"

text \<open>
  The directory tree under which the captures are kept is the only state the monitor
  shares between cycles: the regular files and the directories that exist, keyed by
  their paths. \<^verbatim>\<open>Path.exists\<close> holds for either kind.
\<close>

record filesystem =
  files :: "path set"
  dirs :: "path set"

definition path_exists :: "filesystem \<Rightarrow> path \<Rightarrow> bool" where
  "path_exists fs p = (p \<in> files fs \<or> p \<in> dirs fs)"

datatype error = OSError | CvError

text \<open>
  \<^verbatim>\<open>mkdir(parents=True, exist_ok=True)\<close>: the directory and its missing parents are
  created; it raises when the path or one of its parents is a regular file.
\<close>

fun ancestors :: "path \<Rightarrow> path list" where
  "ancestors (Path r ps) = map (\<lambda>k. Path r (take k ps)) [1..<Suc (length ps)]"

definition mkdir_parents :: "filesystem \<Rightarrow> path \<Rightarrow> error + filesystem" where
  "mkdir_parents fs p =
     (if list_ex (\<lambda>a. a \<in> files fs) (ancestors p) then Inl OSError
      else Inr (fs\<lparr>dirs := dirs fs \<union> set (ancestors p)\<rparr>))"

section \<open>Duplicate checker\<close>

definition date_folder_of :: "config \<Rightarrow> product_info \<Rightarrow> path" where
  "date_folder_of cfg info =
     joinpath (joinpath (save_dir cfg) (lit ''ID_'' @ product_id info)) (label_date info)"

definition is_duplicate :: "config \<Rightarrow> filesystem \<Rightarrow> product_info \<Rightarrow> bool" where
  "is_duplicate cfg fs info =
     (let date_folder = date_folder_of cfg info;
          jpg_path = joinpath date_folder (serial_number info @ lit ''.jpg'');
          png_path = joinpath date_folder (serial_number info @ lit ''.png'')
      in path_exists fs jpg_path \<or> path_exists fs png_path)"

section \<open>Capture store\<close>

text \<open>
  The image encoder \<^verbatim>\<open>cv2.imwrite\<close> is an external collaborator and a parameter: given
  the file name, the image and the encoding parameters it writes the file and returns
  true, writes nothing and returns false, or raises.
\<close>

datatype imwrite_params = PngCompression nat | JpegQuality nat

datatype imwrite_result = Written | NotWritten | Raises

text \<open>\<^verbatim>\<open>re.sub(r'[<>:"/\\|?*]', '_', filename)\<close>, the nine code points spelled out.\<close>

definition illegal_chars :: "nat list" where
  "illegal_chars = [60, 62, 58, 34, 47, 92, 124, 63, 42]"

definition sanitize :: "str \<Rightarrow> str" where
  "sanitize filename = map (\<lambda>c. if c \<in> set illegal_chars then 95 else c) filename"

text \<open>
  \<^verbatim>\<open>LiveMonitor.save_screenshot\<close>. The result is the returned string or the exception,
  together with the file system the call leaves behind. \<open>img_format_of\<close>, \<open>filename_of\<close>,
  \<open>filepath_of\<close> and \<open>imwrite_params_of\<close> are its local variables \<^verbatim>\<open>img_format\<close>,
  \<^verbatim>\<open>filename\<close>, \<^verbatim>\<open>filepath\<close> and the parameter list it passes to \<^verbatim>\<open>imwrite\<close>. The value
  \<^verbatim>\<open>imwrite\<close> returns is not looked at.
\<close>

definition img_format_of :: "unicode \<Rightarrow> config \<Rightarrow> str" where
  "img_format_of U cfg =
     uc_lower U (case storage_format cfg of None \<Rightarrow> lit ''png'' | Some f \<Rightarrow> f)"

definition filename_of :: "unicode \<Rightarrow> config \<Rightarrow> product_info \<Rightarrow> str" where
  "filename_of U cfg info = sanitize (serial_number info @ lit ''.'' @ img_format_of U cfg)"

definition filepath_of :: "unicode \<Rightarrow> config \<Rightarrow> product_info \<Rightarrow> path" where
  "filepath_of U cfg info = joinpath (date_folder_of cfg info) (filename_of U cfg info)"

definition imwrite_params_of :: "unicode \<Rightarrow> config \<Rightarrow> imwrite_params" where
  "imwrite_params_of U cfg =
     (if img_format_of U cfg = lit ''png'' then PngCompression 3
      else JpegQuality (case storage_quality cfg of None \<Rightarrow> 95 | Some q \<Rightarrow> q))"

definition save_screenshot ::
  "unicode \<Rightarrow> config \<Rightarrow> (str \<Rightarrow> 'img \<Rightarrow> imwrite_params \<Rightarrow> imwrite_result) \<Rightarrow>
   filesystem \<Rightarrow> 'img \<Rightarrow> product_info \<Rightarrow> (error + str) \<times> filesystem" where
  "save_screenshot U cfg imwrite fs img info =
     (let date_folder = date_folder_of cfg info
      in case mkdir_parents fs date_folder of
           Inl e \<Rightarrow> (Inl e, fs)
         | Inr fs1 \<Rightarrow>
             (let filepath = filepath_of U cfg info
              in case imwrite (path_str filepath) img (imwrite_params_of U cfg) of
                   Raises \<Rightarrow> (Inl CvError, fs1)
                 | Written \<Rightarrow>
                     (Inr (path_str filepath), fs1\<lparr>files := insert filepath (files fs1)\<rparr>)
                 | NotWritten \<Rightarrow> (Inr (path_str filepath), fs1)))"

section \<open>One detection cycle\<close>

text \<open>
  The optional classifier: \<^verbatim>\<open>predict\<close> raises, or returns a dictionary whose entry
  \<^verbatim>\<open>category\<close> may be missing. \<^verbatim>\<open>run_once\<close> catches what the classifier raises and
  otherwise stores the category on the record.
\<close>

datatype predict_result = PredictRaises | Prediction "str option"

definition classify ::
  "('img \<Rightarrow> predict_result) option \<Rightarrow> 'img \<Rightarrow> product_info \<Rightarrow> product_info" where
  "classify classifier img info =
     (case classifier of
        None \<Rightarrow> info
      | Some predict \<Rightarrow>
          (case predict img of
             PredictRaises \<Rightarrow> info
           | Prediction category \<Rightarrow>
               info\<lparr>style_category :=
                      Some (case category of None \<Rightarrow> unknown | Some c \<Rightarrow> c)\<rparr>))"

text \<open>
  The loop of \<^verbatim>\<open>run_once\<close> over the extracted records. Nothing in the loop catches
  what \<^verbatim>\<open>save_screenshot\<close> raises: the exception leaves \<^verbatim>\<open>run_once\<close>.
\<close>

fun save_loop ::
  "unicode \<Rightarrow> config \<Rightarrow> ('img \<Rightarrow> predict_result) option \<Rightarrow>
   (str \<Rightarrow> 'img \<Rightarrow> imwrite_params \<Rightarrow> imwrite_result) \<Rightarrow> 'img \<Rightarrow>
   product_info list \<Rightarrow> filesystem \<Rightarrow> product_info list \<Rightarrow>
   (error + product_info list) \<times> filesystem" where
  "save_loop U cfg classifier imwrite img [] fs saved_products = (Inr saved_products, fs)"
| "save_loop U cfg classifier imwrite img (info # rest) fs saved_products =
     (if is_duplicate cfg fs info
      then save_loop U cfg classifier imwrite img rest fs saved_products
      else
        (let info1 = classify classifier img info
         in case save_screenshot U cfg imwrite fs img info1 of
              (Inl e, fs1) \<Rightarrow> (Inl e, fs1)
            | (Inr fp, fs1) \<Rightarrow>
                save_loop U cfg classifier imwrite img rest fs1
                  (saved_products @ [info1\<lparr>filepath := fp\<rparr>])))"


section \<open>Specification of the serial search\<close>

text \<open>
  The search for serial candidates as the specification words it, written without the
  program's regular expression and without its index arithmetic.

  A number is a whole-number token of one to four digits: a maximal run of word
  characters of the text that consists of at most four decimal digits. \<open>runs\<close> cuts a
  text into its maximal runs of word characters (\<open>cur\<close> is the run being read).
\<close>

fun runs :: "unicode \<Rightarrow> str \<Rightarrow> str \<Rightarrow> str list" where
  "runs U [] cur = (if cur = [] then [] else [cur])"
| "runs U (c # cs) cur =
     (if is_word U c then runs U cs (cur @ [c])
      else (if cur = [] then [] else [cur]) @ runs U cs [])"

definition word_runs :: "unicode \<Rightarrow> str \<Rightarrow> str list" where
  "word_runs U s = runs U s []"

definition number_tokens :: "unicode \<Rightarrow> str \<Rightarrow> str list" where
  "number_tokens U s =
     filter (\<lambda>r. length r \<le> 4 \<and> list_all (is_digit U) r) (word_runs U s)"










text \<open>
  Deduplication that keeps the order of first occurrence: \<open>first_index xs x\<close> is the
  position of the first occurrence of \<open>x\<close> in \<open>xs\<close>, and \<open>in_order xs u\<close> says that the
  elements of \<open>u\<close> stand in the order of their first occurrences in \<open>xs\<close>.
\<close>

definition first_index :: "'a list \<Rightarrow> 'a \<Rightarrow> nat" where
  "first_index xs x = length (takeWhile (\<lambda>y. y \<noteq> x) xs)"

definition in_order :: "'a list \<Rightarrow> 'a list \<Rightarrow> bool" where
  "in_order xs u = sorted_wrt (\<lambda>a b. first_index xs a < first_index xs b) u"

text \<open>
  The shape of a serial: one to four decimal digits; and its value: \<^verbatim>\<open>int\<close> reads it as a
  number from 1 to 9999.
\<close>

definition serial_shape :: "unicode \<Rightarrow> str \<Rightarrow> bool" where
  "serial_shape U s = (1 \<le> length s \<and> length s \<le> 4 \<and> list_all (is_digit U) s)"

definition serial_ok :: "unicode \<Rightarrow> str \<Rightarrow> bool" where
  "serial_ok U s = (\<exists>v. py_int U s = Some v \<and> 1 \<le> v \<and> v \<le> 9999)"

section \<open>Example inputs\<close>

definition cfg0 :: config where
  "cfg0 = \<lparr>trigger_keyword = lit ''FaFa'', save_dir = Path Rel [lit ''screenshots''],
           storage_format = None, storage_quality = None\<rparr>"

definition cfg_jpeg :: config where
  "cfg_jpeg = cfg0\<lparr>storage_format := Some (lit ''jpeg'')\<rparr>"

definition fs0 :: filesystem where
  "fs0 = \<lparr>files = {}, dirs = {}\<rparr>"

definition ts0 :: str where
  "ts0 = lit ''20251117_101500''"

definition date0 :: str where
  "date0 = lit ''11-17''"

definition rec0 :: product_info where
  "rec0 = new_product (lit ''41'') (lit ''12'') date0 [] ts0"

definition rec_colon :: product_info where
  "rec_colon = new_product (lit ''41'') (lit ''1:2'') date0 [] ts0"

definition rec_slash_serial :: product_info where
  "rec_slash_serial = new_product (lit ''41'') (lit ''1/2'') date0 [] ts0"

definition rec_slash_id :: product_info where
  "rec_slash_id = new_product (lit ''4/1'') (lit ''12'') date0 [] ts0"

definition rec41 :: product_info where
  "rec41 = new_product (lit ''41'') (lit ''100'') date0 [] ts0"

definition rec42 :: product_info where
  "rec42 = new_product (lit ''42'') (lit ''200'') date0 [] ts0"

definition imwrite_ok :: "str \<Rightarrow> unit \<Rightarrow> imwrite_params \<Rightarrow> imwrite_result" where
  "imwrite_ok p img q = Written"

definition imwrite_fails :: "str \<Rightarrow> unit \<Rightarrow> imwrite_params \<Rightarrow> imwrite_result" where
  "imwrite_fails p img q = NotWritten"

definition imwrite_raises_41 :: "str \<Rightarrow> unit \<Rightarrow> imwrite_params \<Rightarrow> imwrite_result" where
  "imwrite_raises_41 p img q =
     (if p = lit ''screenshots/ID_41/11-17/100.png'' then Raises else Written)"

definition predict_dress :: "unit \<Rightarrow> predict_result" where
  "predict_dress img = Prediction (Some (lit ''dress''))"






lemmas eval_defs =
  lit_def ascii_def is_digit_def is_word_def ascii_decimal_def ascii_space_def
  ascii_alpha_def ascii_lower_char_def digits_here_def starts_with_def py_find_def
  unique_ids_def all_ids_def join_lines_def id_patterns_def
  unique_serials_def all_serials_def serial_keywords_def search_keyword_def enumerate_eq_zip
  findall_num_def match_number_def boundary_def py_int_def unknown_def


lemmas store_defs =
  save_screenshot_def is_duplicate_def date_folder_of_def img_format_of_def
  filename_of_def filepath_of_def imwrite_params_of_def sanitize_def illegal_chars_def
  mkdir_parents_def path_exists_def path_parts_def path_root_def cfg0_def cfg_jpeg_def
  classify_def fs0_def ts0_def date0_def new_product_def
  rec0_def rec_colon_def rec_slash_serial_def rec_slash_id_def rec41_def rec42_def
  imwrite_ok_def imwrite_fails_def imwrite_raises_41_def predict_dress_def


section \<open>Properties of the trigger detector\<close>

lemma starts_with_iff: "starts_with hay needle \<longleftrightarrow> (\<exists>suf. hay = needle @ suf)"
proof
  assume "starts_with hay needle"
  then have "hay = needle @ drop (length needle) hay"
    by (metis append_take_drop_id starts_with_def)
  then show "\<exists>suf. hay = needle @ suf" ..
next
  assume "\<exists>suf. hay = needle @ suf"
  then show "starts_with hay needle"
    by (auto simp: starts_with_def)
qed

lemma contains_iff: "contains hay needle \<longleftrightarrow> (\<exists>pre suf. hay = pre @ needle @ suf)"
proof (induction hay)
  case Nil
  show ?case by auto
next
  case (Cons c cs)
  show ?case
  proof
    assume "contains (c # cs) needle"
    then consider "starts_with (c # cs) needle" | "contains cs needle" by auto
    then show "\<exists>pre suf. c # cs = pre @ needle @ suf"
    proof cases
      case 1
      then obtain suf where "c # cs = needle @ suf"
        by (auto simp: starts_with_iff)
      then have "c # cs = [] @ needle @ suf" by simp
      then show ?thesis by blast
    next
      case 2
      with Cons.IH obtain pre suf where "cs = pre @ needle @ suf" by blast
      then have "c # cs = (c # pre) @ needle @ suf" by simp
      then show ?thesis by blast
    qed
  next
    assume "\<exists>pre suf. c # cs = pre @ needle @ suf"
    then obtain pre suf where eq: "c # cs = pre @ needle @ suf" by blast
    show "contains (c # cs) needle"
    proof (cases pre)
      case Nil
      with eq have "starts_with (c # cs) needle"
        by (auto simp: starts_with_iff)
      then show ?thesis by simp
    next
      case (Cons p ps)
      with eq have "cs = ps @ needle @ suf" by simp
      with Cons.IH have "contains cs needle" by blast
      then show ?thesis by simp
    qed
  qed
qed

lemma trigger_loop_iff:
  "trigger_loop U keyword lines \<longleftrightarrow> (\<exists>line \<in> set lines. contains (uc_lower U line) keyword)"
  by (induction lines) auto

text \<open>
  C4. \<open>check_trigger\<close> is true exactly when the lower-case keyword is a substring of the
  lower-case form of at least one line. It is a total function of the tables, the
  configuration and the lines, and returns nothing but the boolean.
\<close>

theorem check_trigger_iff_substring:
  "check_trigger U cfg lines \<longleftrightarrow>
     (\<exists>line \<in> set lines. \<exists>pre suf.
        uc_lower U line = pre @ uc_lower U (trigger_keyword cfg) @ suf)"
  by (simp add: check_trigger_def trigger_loop_iff contains_iff)

theorem check_trigger_witness:
  "\<exists>line \<in> set [lit ''ab'', lit ''x fAFa 1'']. \<exists>pre suf.
     uc_lower ascii line = pre @ uc_lower ascii (trigger_keyword cfg0) @ suf"
  using check_trigger_iff_substring [of ascii cfg0 "[lit ''ab'', lit ''x fAFa 1'']", THEN iffD1]
  by (simp add: check_trigger_def cfg0_def eval_defs)

section \<open>Properties of the serial search\<close>



















lemma number_tokens_Nil: "number_tokens U [] = []"
  by (simp add: number_tokens_def word_runs_def)











section \<open>Properties of the extractor\<close>

lemma findall_number_shape:
  "x \<in> set (findall_number U prev s) \<Longrightarrow> serial_shape U x"
proof (induction U prev s rule: findall_number.induct)
  case (1 U prev)
  then show ?case by simp
next
  case (2 U prev c cs)
  show ?case
  proof (cases "match_number U prev (c # cs)")
    case None
    with 2 show ?thesis by simp
  next
    case (Some k)
    note m = match_number_Some [OF Some]
    from 2(3) Some consider "x = take k (c # cs)"
      | "x \<in> set (findall_number U (Some ((c # cs) ! (k - 1))) (drop k (c # cs)))"
      by auto
    then show ?thesis
    proof cases
      case 1
      with m show ?thesis by (simp add: serial_shape_def min_def)
    next
      case 2
      with "2.IH"(2) [OF Some] show ?thesis by blast
    qed
  qed
qed

lemma findall_num_shape: "x \<in> set (findall_num U s) \<Longrightarrow> serial_shape U x"
  unfolding findall_num_def by (rule findall_number_shape)

lemma hd_findall_num_shape: "findall_num U s \<noteq> [] \<Longrightarrow> serial_shape U (hd (findall_num U s))"
  by (rule findall_num_shape [of _ _ s]) simp

lemma last_findall_num_shape: "findall_num U s \<noteq> [] \<Longrightarrow> serial_shape U (last (findall_num U s))"
  by (rule findall_num_shape [of _ _ s]) simp

lemma search_keyword_shape:
  "search_keyword U lines i line kw = Some num \<Longrightarrow> serial_shape U num"
  unfolding search_keyword_def Let_def
  by (auto split: if_splits dest: hd_findall_num_shape last_findall_num_shape)

lemma keyword_loop_shape:
  "list_all (serial_shape U) acc \<Longrightarrow> list_all (serial_shape U) (keyword_loop U lines i line kws acc)"
  by (induction kws) (auto split: option.splits dest: search_keyword_shape)

lemma line_loop_shape:
  "list_all (serial_shape U) acc \<Longrightarrow> list_all (serial_shape U) (line_loop U lines ils acc)"
  by (induction ils arbitrary: acc) (auto simp: keyword_loop_shape)

lemma all_serials_digits: "list_all (serial_shape U) (all_serials U lines)"
  unfolding all_serials_def by (rule line_loop_shape) simp

lemma unique_serials_loop_inv:
  "unique_serials_loop U xs (seen, uniq) = (seen', uniq') \<Longrightarrow>
   seen = set uniq \<Longrightarrow> distinct uniq \<Longrightarrow>
   seen' = set uniq' \<and> distinct uniq' \<and>
   set uniq' \<subseteq> set uniq \<union> {s \<in> set xs. serial_ok U s}"
proof (induction xs arbitrary: seen uniq)
  case Nil
  then show ?case by auto
next
  case (Cons s rest)
  show ?case
  proof (cases "s \<notin> seen \<and> serial_ok U s")
    case True
    then obtain v where v: "py_int U s = Some v" "1 \<le> v" "v \<le> 9999"
      by (auto simp: serial_ok_def)
    with True Cons.prems(1) have
      "unique_serials_loop U rest (insert s seen, uniq @ [s]) = (seen', uniq')" by simp
    from Cons.IH [OF this] True Cons.prems(2,3) show ?thesis by auto
  next
    case False
    with Cons.prems(1) have "unique_serials_loop U rest (seen, uniq) = (seen', uniq')"
      by (auto simp: serial_ok_def split: if_splits option.splits)
    from Cons.IH [OF this] Cons.prems(2,3) show ?thesis by auto
  qed
qed

lemma unique_serials_props:
  "distinct (unique_serials U lines) \<and>
   set (unique_serials U lines) \<subseteq> {s \<in> set (all_serials U lines). serial_ok U s}"
proof -
  obtain seen' uniq' where r: "unique_serials_loop U (all_serials U lines) ({}, []) = (seen', uniq')"
    by (cases "unique_serials_loop U (all_serials U lines) ({}, [])")
  from unique_serials_loop_inv [OF r] have "distinct uniq'"
    and "set uniq' \<subseteq> {s \<in> set (all_serials U lines). serial_ok U s}" by auto
  with r show ?thesis by (simp add: unique_serials_def)
qed

lemma unique_serials_shape:
  "s \<in> set (unique_serials U lines) \<Longrightarrow> serial_shape U s \<and> serial_ok U s"
  using unique_serials_props [of U lines] all_serials_digits [of U lines]
  by (auto simp: list_all_iff)

lemma extract_serial_cases:
  assumes "r \<in> set (extract_all_products U ts d raw lines)"
  shows "serial_number r = unknown \<or> serial_number r \<in> set (unique_serials U lines)"
  using assms
  by (auto simp: extract_all_products_def Let_def new_product_def in_set_enumerate_eq
           split: if_splits)

text \<open>
  C3. Every record the extractor returns whose serial number is not \<^verbatim>\<open>"unknown"\<close> has a
  serial number of one to four decimal digits that \<^verbatim>\<open>int\<close> reads as a number from 1 to
  9999. The single line \<^verbatim>\<open>mtk 99999\<close> gives no serial candidate and no record.
\<close>

theorem serial_number_range:
  "(\<forall>r \<in> set (extract_all_products U ts d raw lines).
      serial_number r \<noteq> unknown \<longrightarrow>
        1 \<le> length (serial_number r) \<and> length (serial_number r) \<le> 4
        \<and> list_all (is_digit U) (serial_number r)
        \<and> (\<exists>v. py_int U (serial_number r) = Some v \<and> 1 \<le> v \<and> v \<le> 9999))
   \<and> all_serials ascii [lit ''mtk 99999''] = []
   \<and> extract_all_products ascii ts d raw [lit ''mtk 99999''] = []"
proof (intro conjI ballI impI)
  fix r
  assume r: "r \<in> set (extract_all_products U ts d raw lines)"
    and ne: "serial_number r \<noteq> unknown"
  from extract_serial_cases [OF r] ne
  have "serial_number r \<in> set (unique_serials U lines)" by simp
  from unique_serials_shape [OF this]
  show "1 \<le> length (serial_number r)" and "length (serial_number r) \<le> 4"
    and "list_all (is_digit U) (serial_number r)"
    and "\<exists>v. py_int U (serial_number r) = Some v \<and> 1 \<le> v \<and> v \<le> 9999"
    by (simp_all add: serial_shape_def serial_ok_def)
next
  show "all_serials ascii [lit ''mtk 99999''] = []"
    by (simp add: eval_defs)
next
  show "extract_all_products ascii ts d raw [lit ''mtk 99999''] = []"
    by (simp add: extract_all_products_def eval_defs)
qed

theorem serial_number_range_witness:
  "hd (extract_all_products ascii [] [] [] [lit ''ID: 41'', lit ''mtk 2532''])
     \<in> set (extract_all_products ascii [] [] [] [lit ''ID: 41'', lit ''mtk 2532''])
   \<and> serial_number (hd (extract_all_products ascii [] [] [] [lit ''ID: 41'', lit ''mtk 2532'']))
       = lit ''2532''
   \<and> lit ''2532'' \<noteq> unknown
   \<and> (\<exists>v. py_int ascii (lit ''2532'') = Some v \<and> 1 \<le> v \<and> v \<le> 9999)"
proof -
  let ?ps = "extract_all_products ascii [] [] [] [lit ''ID: 41'', lit ''mtk 2532'']"
  have ps: "?ps = [new_product (lit ''41'') (lit ''2532'') [] [] []]"
    by (simp add: extract_all_products_def eval_defs)
  have mem: "hd ?ps \<in> set ?ps" by (simp add: ps)
  have ser: "serial_number (hd ?ps) = lit ''2532''" by (simp add: ps new_product_def)
  have ne: "lit ''2532'' \<noteq> unknown" by (simp add: unknown_def lit_def)
  from serial_number_range [of ascii "[]" "[]" "[]" "[lit ''ID: 41'', lit ''mtk 2532'']",
      THEN conjunct1, THEN bspec, OF mem] ser ne
  have "\<exists>v. py_int ascii (lit ''2532'') = Some v \<and> 1 \<le> v \<and> v \<le> 9999" by simp
  with mem ser ne show ?thesis by blast
qed

lemma extract_nth:
  assumes "i < length (unique_ids U lines)"
  shows "i < length (extract_all_products U ts d raw lines)
     \<and> extract_all_products U ts d raw lines ! i =
         new_product (unique_ids U lines ! i)
           (if i < length (unique_serials U lines) then unique_serials U lines ! i else unknown)
           d raw ts"
  using assms
  by (auto simp: extract_all_products_def Let_def nth_enumerate_eq nth_append)

lemma extract_no_ids:
  "unique_ids U lines = [] \<Longrightarrow>
     extract_all_products U ts d raw lines =
       map (\<lambda>serial. new_product unknown serial d raw ts) (unique_serials U lines)"
  by (simp add: extract_all_products_def Let_def)

lemma extract_length:
  "unique_ids U lines \<noteq> [] \<Longrightarrow>
     length (extract_all_products U ts d raw lines) = length (unique_ids U lines)"
  by (simp add: extract_all_products_def Let_def)

lemma extract_drops_extra:
  assumes ne: "unique_ids U lines \<noteq> []"
    and j: "length (unique_ids U lines) \<le> j" "j < length (unique_serials U lines)"
    and r: "r \<in> set (extract_all_products U ts d raw lines)"
  shows "serial_number r \<noteq> unique_serials U lines ! j"
proof -
  let ?ps = "extract_all_products U ts d raw lines"
  let ?ss = "unique_serials U lines"
  from r obtain i where i: "i < length ?ps" "?ps ! i = r"
    by (auto simp: in_set_conv_nth)
  with extract_length [OF ne] have il: "i < length (unique_ids U lines)" by simp
  with j have ij: "i < length ?ss" "i \<noteq> j" by auto
  from extract_nth [OF il, of ts d raw] i ij have "serial_number r = ?ss ! i"
    by (auto simp: new_product_def)
  moreover have "distinct ?ss" using unique_serials_props by blast
  ultimately show ?thesis using ij j by (auto simp: nth_eq_iff_index_eq)
qed

lemma first_index_fresh:
  "x \<notin> set pre \<Longrightarrow> first_index (pre @ x # rest) x = length pre"
  by (induction pre) (auto simp: first_index_def)

lemma first_index_old:
  "a \<in> set pre \<Longrightarrow> first_index (pre @ rest) a < length pre"
proof -
  assume a: "a \<in> set pre"
  then have "takeWhile (\<lambda>y. y \<noteq> a) (pre @ rest) = takeWhile (\<lambda>y. y \<noteq> a) pre"
    by simp
  moreover have "length (takeWhile (\<lambda>y. y \<noteq> a) pre) < length pre"
    using a by (induction pre) auto
  ultimately show ?thesis by (simp add: first_index_def)
qed

lemma in_order_snoc:
  assumes "in_order (pre @ x # rest) u" and "set u \<subseteq> set pre" and "x \<notin> set pre"
  shows "in_order (pre @ x # rest) (u @ [x])"
proof -
  have "\<forall>a \<in> set u. first_index (pre @ x # rest) a < first_index (pre @ x # rest) x"
    using assms(2,3) first_index_old [of _ pre "x # rest"] first_index_fresh [of x pre rest]
    by auto
  with assms(1) show ?thesis by (simp add: in_order_def sorted_wrt_append)
qed

lemma unique_ids_loop_inv:
  "unique_ids_loop xs (seen, u) = (seen', u') \<Longrightarrow>
   seen = set u \<Longrightarrow> set u = set pre \<Longrightarrow> distinct u \<Longrightarrow> in_order (pre @ xs) u \<Longrightarrow>
   seen' = set u' \<and> distinct u' \<and> set u' = set (pre @ xs) \<and> in_order (pre @ xs) u'"
proof (induction xs arbitrary: seen u pre)
  case Nil
  then show ?case by auto
next
  case (Cons x rest)
  show ?case
  proof (cases "x \<in> seen")
    case True
    with Cons.prems(1) have l: "unique_ids_loop rest (seen, u) = (seen', u')" by simp
    from True Cons.prems(2,3) have s: "set u = set (pre @ [x])" by auto
    from Cons.IH [OF l Cons.prems(2) s Cons.prems(4)] Cons.prems(5)
    show ?thesis by simp
  next
    case False
    with Cons.prems(1) have l: "unique_ids_loop rest (insert x seen, u @ [x]) = (seen', u')"
      by simp
    from False Cons.prems(2,3) have fresh: "x \<notin> set pre" by simp
    have a: "insert x seen = set (u @ [x])" using Cons.prems(2) by simp
    have b: "set (u @ [x]) = set (pre @ [x])" using Cons.prems(3) by simp
    have c: "distinct (u @ [x])" using False Cons.prems(2,4) by simp
    have d: "in_order ((pre @ [x]) @ rest) (u @ [x])"
      using in_order_snoc [OF Cons.prems(5) _ fresh] Cons.prems(3) by simp
    from Cons.IH [OF l a b c d] show ?thesis by simp
  qed
qed

lemma unique_ids_first_occurrence:
  "distinct (unique_ids U lines)
   \<and> set (unique_ids U lines) = set (all_ids U lines)
   \<and> in_order (all_ids U lines) (unique_ids U lines)"
proof -
  obtain seen' u' where r: "unique_ids_loop (all_ids U lines) ({}, []) = (seen', u')"
    by (cases "unique_ids_loop (all_ids U lines) ({}, [])")
  from unique_ids_loop_inv [OF r, of "[]"] r show ?thesis
    by (simp add: unique_ids_def in_order_def)
qed

lemma unique_serials_loop_order:
  "unique_serials_loop U xs (seen, u) = (seen', u') \<Longrightarrow>
   seen = set u \<Longrightarrow> set u = {s \<in> set pre. serial_ok U s} \<Longrightarrow> distinct u \<Longrightarrow>
   in_order (pre @ xs) u \<Longrightarrow>
   seen' = set u' \<and> distinct u' \<and> set u' = {s \<in> set (pre @ xs). serial_ok U s}
   \<and> in_order (pre @ xs) u'"
proof (induction xs arbitrary: seen u pre)
  case Nil
  then show ?case by auto
next
  case (Cons x rest)
  show ?case
  proof (cases "x \<notin> seen \<and> serial_ok U x")
    case True
    then obtain v where v: "py_int U x = Some v" "1 \<le> v" "v \<le> 9999"
      by (auto simp: serial_ok_def)
    with True Cons.prems(1)
    have l: "unique_serials_loop U rest (insert x seen, u @ [x]) = (seen', u')" by simp
    from True Cons.prems(2,3) have fresh: "x \<notin> set pre" by auto
    have a: "insert x seen = set (u @ [x])" using Cons.prems(2) by simp
    have b: "set (u @ [x]) = {s \<in> set (pre @ [x]). serial_ok U s}"
      using True Cons.prems(3) by auto
    have c: "distinct (u @ [x])" using True Cons.prems(2,4) by simp
    have sub: "set u \<subseteq> set pre" using Cons.prems(3) by auto
    have d: "in_order ((pre @ [x]) @ rest) (u @ [x])"
      using in_order_snoc [OF Cons.prems(5) sub fresh] by simp
    from Cons.IH [OF l a b c d] show ?thesis by simp
  next
    case False
    with Cons.prems(1) have l: "unique_serials_loop U rest (seen, u) = (seen', u')"
      by (auto simp: serial_ok_def split: if_splits option.splits)
    have b: "set u = {s \<in> set (pre @ [x]). serial_ok U s}"
      using False Cons.prems(2,3) by auto
    from Cons.IH [OF l Cons.prems(2) b Cons.prems(4)] Cons.prems(5)
    show ?thesis by simp
  qed
qed

lemma unique_serials_first_occurrence:
  "distinct (unique_serials U lines)
   \<and> set (unique_serials U lines) = {s \<in> set (all_serials U lines). serial_ok U s}
   \<and> in_order (all_serials U lines) (unique_serials U lines)"
proof -
  obtain seen' u' where r: "unique_serials_loop U (all_serials U lines) ({}, []) = (seen', u')"
    by (cases "unique_serials_loop U (all_serials U lines) ({}, [])")
  from unique_serials_loop_order [OF r, of "[]"] r show ?thesis
    by (simp add: unique_serials_def in_order_def)
qed

lemma in_order_nth:
  "in_order xs u \<Longrightarrow> i < j \<Longrightarrow> j < length u \<Longrightarrow> first_index xs (u ! i) < first_index xs (u ! j)"
  by (simp add: in_order_def sorted_wrt_iff_nth_less)

text \<open>
  C1. The unique IDs are the IDs found, each once, in the order of their first
  occurrences; the unique serials are the candidates with a value from 1 to 9999, each
  once, in the order of their first occurrences. Pairing is by position: the \<open>i\<close>-th unique
  ID is paired with the \<open>i\<close>-th unique serial when there is one and with \<^verbatim>\<open>"unknown"\<close>
  otherwise. Without any ID there is one record per unique serial, with the ID
  \<^verbatim>\<open>"unknown"\<close>; without IDs and serials there is no record. When there is an ID, there
  are exactly as many records as unique IDs, and a unique serial at a position beyond the
  unique IDs is the serial number of no record.
\<close>

theorem extract_pairing:
  "distinct (unique_ids U lines)
   \<and> set (unique_ids U lines) = set (all_ids U lines)
   \<and> (\<forall>i j. i < j \<and> j < length (unique_ids U lines) \<longrightarrow>
         first_index (all_ids U lines) (unique_ids U lines ! i)
           < first_index (all_ids U lines) (unique_ids U lines ! j))
   \<and> distinct (unique_serials U lines)
   \<and> set (unique_serials U lines)
       = {s \<in> set (all_serials U lines). \<exists>v. py_int U s = Some v \<and> 1 \<le> v \<and> v \<le> 9999}
   \<and> (\<forall>i j. i < j \<and> j < length (unique_serials U lines) \<longrightarrow>
         first_index (all_serials U lines) (unique_serials U lines ! i)
           < first_index (all_serials U lines) (unique_serials U lines ! j))
   \<and> (\<forall>i < length (unique_ids U lines).
      i < length (extract_all_products U ts d raw lines)
      \<and> product_id (extract_all_products U ts d raw lines ! i) = unique_ids U lines ! i
      \<and> serial_number (extract_all_products U ts d raw lines ! i) =
          (if i < length (unique_serials U lines) then unique_serials U lines ! i else unknown))
   \<and> (unique_ids U lines = [] \<longrightarrow>
        map (\<lambda>r. (product_id r, serial_number r)) (extract_all_products U ts d raw lines) =
          map (\<lambda>serial. (unknown, serial)) (unique_serials U lines))
   \<and> (unique_ids U lines = [] \<and> unique_serials U lines = [] \<longrightarrow>
        extract_all_products U ts d raw lines = [])
   \<and> (unique_ids U lines \<noteq> [] \<longrightarrow>
        length (extract_all_products U ts d raw lines) = length (unique_ids U lines)
        \<and> (\<forall>j. length (unique_ids U lines) \<le> j \<and> j < length (unique_serials U lines) \<longrightarrow>
              (\<forall>r \<in> set (extract_all_products U ts d raw lines).
                 serial_number r \<noteq> unique_serials U lines ! j)))"
proof -
  note ui = unique_ids_first_occurrence [of U lines]
  note us = unique_serials_first_occurrence [of U lines]
  have a: "\<forall>i j. i < j \<and> j < length (unique_ids U lines) \<longrightarrow>
         first_index (all_ids U lines) (unique_ids U lines ! i)
           < first_index (all_ids U lines) (unique_ids U lines ! j)"
    using ui in_order_nth by blast
  have b: "\<forall>i j. i < j \<and> j < length (unique_serials U lines) \<longrightarrow>
         first_index (all_serials U lines) (unique_serials U lines ! i)
           < first_index (all_serials U lines) (unique_serials U lines ! j)"
    using us in_order_nth by blast
  have c: "set (unique_serials U lines)
       = {s \<in> set (all_serials U lines). \<exists>v. py_int U s = Some v \<and> 1 \<le> v \<and> v \<le> 9999}"
    using us by (simp add: serial_ok_def)
  have p1: "\<forall>i < length (unique_ids U lines).
      i < length (extract_all_products U ts d raw lines)
      \<and> product_id (extract_all_products U ts d raw lines ! i) = unique_ids U lines ! i
      \<and> serial_number (extract_all_products U ts d raw lines ! i) =
          (if i < length (unique_serials U lines) then unique_serials U lines ! i else unknown)"
    using extract_nth [of _ U lines ts d raw] by (simp add: new_product_def)
  have p2: "unique_ids U lines = [] \<longrightarrow>
        map (\<lambda>r. (product_id r, serial_number r)) (extract_all_products U ts d raw lines) =
          map (\<lambda>serial. (unknown, serial)) (unique_serials U lines)"
    by (simp add: extract_no_ids new_product_def comp_def)
  have p3: "unique_ids U lines = [] \<and> unique_serials U lines = [] \<longrightarrow>
        extract_all_products U ts d raw lines = []"
    by (simp add: extract_no_ids)
  have p4: "unique_ids U lines \<noteq> [] \<longrightarrow>
        length (extract_all_products U ts d raw lines) = length (unique_ids U lines)
        \<and> (\<forall>j. length (unique_ids U lines) \<le> j \<and> j < length (unique_serials U lines) \<longrightarrow>
              (\<forall>r \<in> set (extract_all_products U ts d raw lines).
                 serial_number r \<noteq> unique_serials U lines ! j))"
    using extract_length [of U lines ts d raw] extract_drops_extra [of U lines _ _ ts d raw]
    by blast
  from ui us a b c p1 p2 p3 p4 show ?thesis by blast
qed

theorem extract_pairing_witness:
  "all_ids ascii [lit ''ID:41'', lit ''ID:42'', lit ''ID:41'', lit ''ID 43'', lit ''yeye 100'',
                  lit ''mtk 100'', lit ''mtk 200'']
     = [lit ''41'', lit ''42'', lit ''41'', lit ''43'']
   \<and> unique_ids ascii [lit ''ID:41'', lit ''ID:42'', lit ''ID:41'', lit ''ID 43'', lit ''yeye 100'',
                  lit ''mtk 100'', lit ''mtk 200'']
     = [lit ''41'', lit ''42'', lit ''43'']
   \<and> map (\<lambda>r. (product_id r, serial_number r))
       (extract_all_products ascii [] [] []
          [lit ''ID:41'', lit ''ID:42'', lit ''ID:41'', lit ''ID 43'', lit ''yeye 100'',
           lit ''mtk 100'', lit ''mtk 200''])
     = [(lit ''41'', lit ''100''), (lit ''42'', lit ''200''), (lit ''43'', unknown)]
   \<and> map (\<lambda>r. (product_id r, serial_number r))
       (extract_all_products ascii [] [] []
          [lit ''ID:41'', lit ''ID:41'', lit ''yeye 100'', lit ''mtk 200''])
     = [(lit ''41'', lit ''100'')]
   \<and> map (\<lambda>r. (product_id r, serial_number r))
       (extract_all_products ascii [] [] [] [lit ''mtk 7'', lit ''yeye 8''])
     = [(unknown, lit ''7''), (unknown, lit ''8'')]
   \<and> extract_all_products ascii [] [] [] [lit ''hello''] = []"
proof -
  let ?L1 = "[lit ''ID:41'', lit ''ID:42'', lit ''ID:41'', lit ''ID 43'', lit ''yeye 100'',
                  lit ''mtk 100'', lit ''mtk 200'']"
  let ?L2 = "[lit ''ID:41'', lit ''ID:41'', lit ''yeye 100'', lit ''mtk 200'']"
  let ?L3 = "[lit ''mtk 7'', lit ''yeye 8'']"
  let ?L4 = "[lit ''hello'']"
  let ?f = "\<lambda>r. (product_id r, serial_number r)"
  have all1: "all_ids ascii ?L1 = [lit ''41'', lit ''42'', lit ''41'', lit ''43'']"
    by (simp add: eval_defs)
  have ids1: "unique_ids ascii ?L1 = [lit ''41'', lit ''42'', lit ''43'']"
    by (simp add: eval_defs)
  have ser1: "unique_serials ascii ?L1 = [lit ''100'', lit ''200'']" by (simp add: eval_defs)
  have ids2: "unique_ids ascii ?L2 = [lit ''41'']" by (simp add: eval_defs)
  have ser2: "unique_serials ascii ?L2 = [lit ''100'', lit ''200'']" by (simp add: eval_defs)
  have ids3: "unique_ids ascii ?L3 = []" by (simp add: eval_defs)
  have ser3: "unique_serials ascii ?L3 = [lit ''7'', lit ''8'']" by (simp add: eval_defs)
  have ids4: "unique_ids ascii ?L4 = []" by (simp add: eval_defs)
  have ser4: "unique_serials ascii ?L4 = []" by (simp add: eval_defs)
  note p1 = extract_pairing [of ascii ?L1 "[]" "[]" "[]"]
  note p2 = extract_pairing [of ascii ?L2 "[]" "[]" "[]"]
  note p3 = extract_pairing [of ascii ?L3 "[]" "[]" "[]"]
  note p4 = extract_pairing [of ascii ?L4 "[]" "[]" "[]"]
  have r1: "map ?f (extract_all_products ascii [] [] [] ?L1)
              = [(lit ''41'', lit ''100''), (lit ''42'', lit ''200''), (lit ''43'', unknown)]"
  proof (rule nth_equalityI)
    from p1 show "length (map ?f (extract_all_products ascii [] [] [] ?L1))
            = length [(lit ''41'', lit ''100''), (lit ''42'', lit ''200''), (lit ''43'', unknown)]"
      unfolding ids1 ser1 by simp
  next
    fix i assume "i < length (map ?f (extract_all_products ascii [] [] [] ?L1))"
    with p1 have i: "i < 3" unfolding ids1 ser1 by simp
    with p1 [unfolded ids1 ser1]
    have "product_id (extract_all_products ascii [] [] [] ?L1 ! i)
            = [lit ''41'', lit ''42'', lit ''43''] ! i"
      and "serial_number (extract_all_products ascii [] [] [] ?L1 ! i)
            = (if i < 2 then [lit ''100'', lit ''200''] ! i else unknown)"
      and "i < length (extract_all_products ascii [] [] [] ?L1)"
      by simp_all
    with i show "map ?f (extract_all_products ascii [] [] [] ?L1) ! i
            = [(lit ''41'', lit ''100''), (lit ''42'', lit ''200''), (lit ''43'', unknown)] ! i"
      by (auto simp: less_Suc_eq numeral_3_eq_3 numeral_2_eq_2)
  qed
  have r2: "map ?f (extract_all_products ascii [] [] [] ?L2) = [(lit ''41'', lit ''100'')]"
  proof (rule nth_equalityI)
    from p2 show "length (map ?f (extract_all_products ascii [] [] [] ?L2))
            = length [(lit ''41'', lit ''100'')]"
      unfolding ids2 ser2 by simp
  next
    fix i assume "i < length (map ?f (extract_all_products ascii [] [] [] ?L2))"
    with p2 have i: "i = 0" unfolding ids2 ser2 by simp
    with p2 [unfolded ids2 ser2]
    show "map ?f (extract_all_products ascii [] [] [] ?L2) ! i = [(lit ''41'', lit ''100'')] ! i"
      by simp
  qed
  from p3 have r3: "map ?f (extract_all_products ascii [] [] [] ?L3)
                      = [(unknown, lit ''7''), (unknown, lit ''8'')]"
    unfolding ids3 ser3 by simp
  from p4 have r4: "extract_all_products ascii [] [] [] ?L4 = []"
    unfolding ids4 ser4 by simp
  from all1 ids1 r1 r2 r3 r4 show ?thesis by blast
qed

text \<open>
  C5. The specification, and the comment above the search in the source, state that no
  line that carries an ID pattern contributes a serial candidate, so that the digits of an
  ID are never taken as a serial. The code does not keep to it. The frame with the two lines
  \<^verbatim>\<open>ID: 41\<close> and \<^verbatim>\<open>mtk\<close> is evaluated: the marker line has no number, the search goes to
  the previous line, which is the ID line, and takes the ID's digits \<^verbatim>\<open>41\<close> as the serial.
  The same happens on one line, \<^verbatim>\<open>mtk ID: 41\<close>.
\<close>

theorem id_line_gives_serial:
  "findall_id ascii IdColon (lit ''ID: 41'') = [lit ''41'']
   \<and> all_serials ascii [lit ''ID: 41'', lit ''mtk''] = [lit ''41'']
   \<and> map (\<lambda>r. (product_id r, serial_number r))
        (extract_all_products ascii ts0 date0 [] [lit ''ID: 41'', lit ''mtk''])
      = [(lit ''41'', lit ''41'')]
   \<and> map (\<lambda>r. (product_id r, serial_number r))
        (extract_all_products ascii ts0 date0 [] [lit ''mtk ID: 41''])
      = [(lit ''41'', lit ''41'')]"
  by (simp add: extract_all_products_def new_product_def eval_defs)

section \<open>Properties of the capture store and the duplicate checker\<close>

lemma save_screenshot_Inr:
  assumes "save_screenshot U cfg imwrite fs img info = (Inr p, fs')"
  shows "p = path_str (filepath_of U cfg info)
    \<and> (\<exists>fs1. mkdir_parents fs (date_folder_of cfg info) = Inr fs1
          \<and> ((imwrite p img (imwrite_params_of U cfg) = Written
                \<and> fs' = fs1\<lparr>files := insert (filepath_of U cfg info) (files fs1)\<rparr>)
             \<or> (imwrite p img (imwrite_params_of U cfg) = NotWritten \<and> fs' = fs1)))"
  using assms
  by (auto simp: save_screenshot_def Let_def split: sum.splits imwrite_result.splits)

lemma sanitize_id:
  "set s \<inter> set illegal_chars = {} \<Longrightarrow> sanitize s = s"
  unfolding sanitize_def by (induction s) auto

lemma filename_unsanitized:
  assumes "set (serial_number info) \<inter> set illegal_chars = {}"
    and "img_format_of U cfg = lit ''png'' \<or> img_format_of U cfg = lit ''jpg''"
  shows "filename_of U cfg info = serial_number info @ lit ''.'' @ img_format_of U cfg"
proof -
  from assms(2) have "set (lit ''.'' @ img_format_of U cfg) \<inter> set illegal_chars = {}"
    by (auto simp: lit_def illegal_chars_def)
  with assms(1) have "set (serial_number info @ lit ''.'' @ img_format_of U cfg) \<inter> set illegal_chars = {}"
    by auto
  then show ?thesis unfolding filename_of_def by (rule sanitize_id)
qed

text \<open>
  C6 as stated fails. With the configured format \<^verbatim>\<open>jpeg\<close> the capture is written as
  \<^verbatim>\<open>12.jpeg\<close>, and the duplicate checker, which looks for \<^verbatim>\<open>12.jpg\<close> and \<^verbatim>\<open>12.png\<close>, does not
  find it. A serial with a character that the store replaces (\<^verbatim>\<open>1:2\<close> is saved as
  \<^verbatim>\<open>1_2.png\<close>) is not found either, and a save whose encoder returns false returns
  normally without any file.
\<close>

theorem save_then_duplicate_counterexample:
  "fst (save_screenshot ascii cfg_jpeg imwrite_ok fs0 () rec0)
     = Inr (lit ''screenshots/ID_41/11-17/12.jpeg'')
   \<and> \<not> is_duplicate cfg_jpeg (snd (save_screenshot ascii cfg_jpeg imwrite_ok fs0 () rec0)) rec0
   \<and> fst (save_screenshot ascii cfg0 imwrite_ok fs0 () rec_colon)
     = Inr (lit ''screenshots/ID_41/11-17/1_2.png'')
   \<and> \<not> is_duplicate cfg0 (snd (save_screenshot ascii cfg0 imwrite_ok fs0 () rec_colon)) rec_colon
   \<and> fst (save_screenshot ascii cfg0 imwrite_fails fs0 () rec0)
     = Inr (lit ''screenshots/ID_41/11-17/12.png'')
   \<and> \<not> is_duplicate cfg0 (snd (save_screenshot ascii cfg0 imwrite_fails fs0 () rec0)) rec0"
  by (simp add: store_defs eval_defs)

text \<open>
  C6, amended. When the save returns, the encoder has written the file, the configured
  format is (in lower case) \<^verbatim>\<open>png\<close> or \<^verbatim>\<open>jpg\<close>, and the serial number has none of the
  characters the store replaces, the duplicate checker finds the record.
\<close>

theorem save_then_duplicate:
  assumes save: "save_screenshot U cfg imwrite fs img info = (Inr p, fs')"
    and written: "imwrite p img (imwrite_params_of U cfg) = Written"
    and fmt: "img_format_of U cfg = lit ''png'' \<or> img_format_of U cfg = lit ''jpg''"
    and serial: "set (serial_number info) \<inter> set illegal_chars = {}"
  shows "is_duplicate cfg fs' info"
proof -
  from save_screenshot_Inr [OF save] written
  have "filepath_of U cfg info \<in> files fs'" by auto
  moreover from filename_unsanitized [OF serial fmt]
  have "filepath_of U cfg info =
      joinpath (date_folder_of cfg info) (serial_number info @ lit ''.'' @ img_format_of U cfg)"
    by (simp add: filepath_of_def)
  ultimately show ?thesis using fmt
    by (auto simp: is_duplicate_def Let_def path_exists_def lit_def)
qed

theorem save_then_duplicate_witness:
  "fst (save_screenshot ascii cfg0 imwrite_ok fs0 () rec0)
     = Inr (lit ''screenshots/ID_41/11-17/12.png'')
   \<and> is_duplicate cfg0 (snd (save_screenshot ascii cfg0 imwrite_ok fs0 () rec0)) rec0"
proof -
  have r: "fst (save_screenshot ascii cfg0 imwrite_ok fs0 () rec0)
             = Inr (lit ''screenshots/ID_41/11-17/12.png'')"
    by (simp add: store_defs eval_defs)
  have s: "save_screenshot ascii cfg0 imwrite_ok fs0 () rec0
     = (Inr (lit ''screenshots/ID_41/11-17/12.png''),
        snd (save_screenshot ascii cfg0 imwrite_ok fs0 () rec0))"
    by (rule prod_eqI) (simp_all add: r)
  have w: "imwrite_ok (lit ''screenshots/ID_41/11-17/12.png'') () (imwrite_params_of ascii cfg0)
             = Written"
    by (simp add: imwrite_ok_def)
  have f: "img_format_of ascii cfg0 = lit ''png'' \<or> img_format_of ascii cfg0 = lit ''jpg''"
    by (simp add: store_defs eval_defs)
  have c: "set (serial_number rec0) \<inter> set illegal_chars = {}"
    by (simp add: store_defs eval_defs)
  have "is_duplicate cfg0 (snd (save_screenshot ascii cfg0 imwrite_ok fs0 () rec0)) rec0"
    by (rule save_then_duplicate [where U = ascii and cfg = cfg0 and imwrite = imwrite_ok
          and img = "()" and p = "lit ''screenshots/ID_41/11-17/12.png''", OF s w f c])
  with r show ?thesis by (rule conjI)
qed

lemma sanitize_clean: "list_all (\<lambda>c. c \<notin> set illegal_chars) (sanitize s)"
  unfolding sanitize_def by (induction s) (auto simp: illegal_chars_def)

lemma split_on_absent: "sep \<notin> set s \<Longrightarrow> split_on sep s = [s]"
  by (induction s) auto

lemma no_slash_parts:
  "47 \<notin> set s \<Longrightarrow> path_root s = Rel \<and> path_parts s = (if s = [] \<or> s = [46] then [] else [s])"
  by (cases s) (auto simp: path_root_def path_parts_def split_on_absent)

lemma sanitize_no_slash: "47 \<notin> set (sanitize s)"
  using sanitize_clean [of s] by (auto simp: list_all_iff illegal_chars_def)

text \<open>
  C7 as stated fails for the ID. Only the file name is sanitized; the product ID goes
  into the folder path as it is, so the ID \<^verbatim>\<open>4/1\<close> creates the directory \<^verbatim>\<open>ID_4\<close> and
  below it the directory \<^verbatim>\<open>1\<close>, one level more than \<^verbatim>\<open>ID_{id}/{date}/\<close>.
\<close>

theorem id_slash_counterexample:
  "fst (save_screenshot ascii cfg0 imwrite_ok fs0 () rec_slash_id)
     = Inr (lit ''screenshots/ID_4/1/11-17/12.png'')
   \<and> Path Rel [lit ''screenshots'', lit ''ID_4'', lit ''1'', lit ''11-17'']
       \<in> dirs (snd (save_screenshot ascii cfg0 imwrite_ok fs0 () rec_slash_id))"
  by (simp add: store_defs eval_defs)

lemma save_screenshot_dirs:
  "d \<in> dirs (snd (save_screenshot U cfg imwrite fs img info)) \<Longrightarrow>
     d \<in> dirs fs \<or> d \<in> set (ancestors (date_folder_of cfg info))"
  by (auto simp: save_screenshot_def Let_def mkdir_parents_def
           split: sum.splits imwrite_result.splits if_splits)

lemma save_screenshot_files:
  "f \<in> files (snd (save_screenshot U cfg imwrite fs img info)) \<Longrightarrow>
     f \<in> files fs \<or> f = filepath_of U cfg info"
  by (auto simp: save_screenshot_def Let_def mkdir_parents_def
           split: sum.splits imwrite_result.splits if_splits)

lemma ancestors_prefix:
  "d \<in> set (ancestors (Path r ps)) \<Longrightarrow> \<exists>k. 1 \<le> k \<and> k \<le> length ps \<and> d = Path r (take k ps)"
  by auto

lemma sanitize_length: "length (sanitize s) = length s"
  by (simp add: sanitize_def)

lemma sanitize_nth:
  "i < length s \<Longrightarrow> sanitize s ! i = (if s ! i \<in> set illegal_chars then 95 else s ! i)"
  by (simp add: sanitize_def)

text \<open>
  C7, amended. The store replaces each of the nine characters by \<^verbatim>\<open>_\<close> in the file name,
  which is built from the serial number and the format, and leaves every other character
  as it is. No such character is left in the file name, so the file name is one path
  component (none when it is \<^verbatim>\<open>.\<close>): the file path is the date folder followed by the
  file name, the string a save returns is that path, a save adds no file anywhere else,
  and every directory a save creates is the date folder or one of its parents.
\<close>

theorem save_sanitizes_file_name:
  assumes "date_folder_of cfg info = Path r ps"
  shows "length (filename_of U cfg info)
           = length (serial_number info @ lit ''.'' @ img_format_of U cfg)
    \<and> (\<forall>i < length (filename_of U cfg info).
          filename_of U cfg info ! i =
            (if (serial_number info @ lit ''.'' @ img_format_of U cfg) ! i \<in> set illegal_chars
             then 95 else (serial_number info @ lit ''.'' @ img_format_of U cfg) ! i))
    \<and> list_all (\<lambda>c. c \<notin> set illegal_chars) (filename_of U cfg info)
    \<and> filepath_of U cfg info = Path r (ps @ path_parts (filename_of U cfg info))
    \<and> path_parts (filename_of U cfg info) =
        (if filename_of U cfg info = [46] then [] else [filename_of U cfg info])
    \<and> (\<forall>p fs'. save_screenshot U cfg imwrite fs img info = (Inr p, fs') \<longrightarrow>
          p = path_str (Path r (ps @ path_parts (filename_of U cfg info)))
          \<and> files fs' \<subseteq> insert (Path r (ps @ path_parts (filename_of U cfg info))) (files fs))
    \<and> (\<forall>d \<in> dirs (snd (save_screenshot U cfg imwrite fs img info)).
          d \<in> dirs fs \<or> (\<exists>k. 1 \<le> k \<and> k \<le> length ps \<and> d = Path r (take k ps)))
    \<and> (\<forall>f \<in> files (snd (save_screenshot U cfg imwrite fs img info)).
          f \<in> files fs \<or> f = Path r (ps @ path_parts (filename_of U cfg info)))"
proof -
  have ns: "47 \<notin> set (filename_of U cfg info)"
    unfolding filename_of_def by (rule sanitize_no_slash)
  have ne: "filename_of U cfg info \<noteq> []"
    by (simp add: filename_of_def sanitize_def lit_def)
  note np = no_slash_parts [OF ns]
  have fp: "filepath_of U cfg info = Path r (ps @ path_parts (filename_of U cfg info))"
    using np assms by (simp add: filepath_of_def)
  have len: "length (filename_of U cfg info)
           = length (serial_number info @ lit ''.'' @ img_format_of U cfg)"
    unfolding filename_of_def by (rule sanitize_length)
  have pt: "\<forall>i < length (filename_of U cfg info).
          filename_of U cfg info ! i =
            (if (serial_number info @ lit ''.'' @ img_format_of U cfg) ! i \<in> set illegal_chars
             then 95 else (serial_number info @ lit ''.'' @ img_format_of U cfg) ! i)"
    unfolding filename_of_def sanitize_length using sanitize_nth by blast
  have sv: "\<forall>p fs'. save_screenshot U cfg imwrite fs img info = (Inr p, fs') \<longrightarrow>
          p = path_str (Path r (ps @ path_parts (filename_of U cfg info)))
          \<and> files fs' \<subseteq> insert (Path r (ps @ path_parts (filename_of U cfg info))) (files fs)"
  proof (intro allI impI)
    fix p fs'
    assume s: "save_screenshot U cfg imwrite fs img info = (Inr p, fs')"
    from save_screenshot_Inr [OF s] fp
    show "p = path_str (Path r (ps @ path_parts (filename_of U cfg info)))
          \<and> files fs' \<subseteq> insert (Path r (ps @ path_parts (filename_of U cfg info))) (files fs)"
      by (auto simp: mkdir_parents_def split: if_splits)
  qed
  have ds: "\<forall>d \<in> dirs (snd (save_screenshot U cfg imwrite fs img info)).
          d \<in> dirs fs \<or> (\<exists>k. 1 \<le> k \<and> k \<le> length ps \<and> d = Path r (take k ps))"
    using save_screenshot_dirs [of _ U cfg imwrite fs img info] ancestors_prefix [of _ r ps] assms
    by metis
  have fl: "\<forall>f \<in> files (snd (save_screenshot U cfg imwrite fs img info)).
          f \<in> files fs \<or> f = Path r (ps @ path_parts (filename_of U cfg info))"
    using save_screenshot_files [of _ U cfg imwrite fs img info] fp by metis
  from len pt fp np ne sv ds fl show ?thesis
    by (simp add: filename_of_def sanitize_clean)
qed

theorem save_sanitizes_file_name_witness:
  "date_folder_of cfg0 rec_slash_serial = Path Rel [lit ''screenshots'', lit ''ID_41'', lit ''11-17'']
   \<and> filename_of ascii cfg0 rec_slash_serial = lit ''1_2.png''
   \<and> filepath_of ascii cfg0 rec_slash_serial
       = Path Rel [lit ''screenshots'', lit ''ID_41'', lit ''11-17'', lit ''1_2.png'']
   \<and> Path Rel [lit ''screenshots'', lit ''ID_41'', lit ''11-17'', lit ''1'']
       \<notin> dirs (snd (save_screenshot ascii cfg0 imwrite_ok fs0 () rec_slash_serial))"
proof -
  let ?ps = "[lit ''screenshots'', lit ''ID_41'', lit ''11-17'']"
  have d: "date_folder_of cfg0 rec_slash_serial = Path Rel ?ps"
    by (simp add: store_defs eval_defs)
  have n: "filename_of ascii cfg0 rec_slash_serial = lit ''1_2.png''"
    by (simp add: store_defs eval_defs)
  note t = save_sanitizes_file_name [where U = ascii and imwrite = imwrite_ok and fs = fs0
      and img = "()", OF d]
  from t n have fp: "filepath_of ascii cfg0 rec_slash_serial
       = Path Rel [lit ''screenshots'', lit ''ID_41'', lit ''11-17'', lit ''1_2.png'']"
    by (simp add: lit_def)
  from t have ds: "\<forall>d \<in> dirs (snd (save_screenshot ascii cfg0 imwrite_ok fs0 () rec_slash_serial)).
          d \<in> dirs fs0 \<or> (\<exists>k. 1 \<le> k \<and> k \<le> length ?ps \<and> d = Path Rel (take k ?ps))"
    by blast
  have "Path Rel [lit ''screenshots'', lit ''ID_41'', lit ''11-17'', lit ''1'']
       \<notin> dirs (snd (save_screenshot ascii cfg0 imwrite_ok fs0 () rec_slash_serial))"
  proof
    assume "Path Rel [lit ''screenshots'', lit ''ID_41'', lit ''11-17'', lit ''1'']
       \<in> dirs (snd (save_screenshot ascii cfg0 imwrite_ok fs0 () rec_slash_serial))"
    with ds obtain k where "k \<le> length ?ps"
      and "Path Rel [lit ''screenshots'', lit ''ID_41'', lit ''11-17'', lit ''1'']
             = Path Rel (take k ?ps)"
      by (auto simp: fs0_def)
    then have "length [lit ''screenshots'', lit ''ID_41'', lit ''11-17'', lit ''1'']
                 = length (take k ?ps)" by simp
    with \<open>k \<le> length ?ps\<close> show False by simp
  qed
  with d n fp show ?thesis by blast
qed

section \<open>Properties of the detection cycle\<close>





lemma classify_fields:
  "product_id (classify cl img info) = product_id info
   \<and> serial_number (classify cl img info) = serial_number info
   \<and> label_date (classify cl img info) = label_date info
   \<and> raw_text (classify cl img info) = raw_text info
   \<and> timestamp (classify cl img info) = timestamp info
   \<and> filepath (classify cl img info) = filepath info"
  by (simp add: classify_def split: option.splits predict_result.splits)





lemma join_parts_nonempty: "p \<in> set ps \<Longrightarrow> p \<noteq> [] \<Longrightarrow> join_parts ps \<noteq> []"
  by (induction ps rule: join_parts.induct) auto

lemma path_str_nonempty_parts: "p \<in> set ps \<Longrightarrow> p \<noteq> [] \<Longrightarrow> path_str (Path r ps) \<noteq> []"
  by (auto simp: join_parts_nonempty)

lemma path_str_nonempty_root: "r \<noteq> Rel \<Longrightarrow> path_str (Path r ps) \<noteq> []"
  by (cases r) auto

lemma path_parts_nonempty: "p \<in> set (path_parts s) \<Longrightarrow> p \<noteq> []"
  by (auto simp: path_parts_def)

lemma split_on_Cons_nonsep:
  "c \<noteq> sep \<Longrightarrow> \<exists>p ps. split_on sep (c # cs) = (c # p) # ps"
  by (cases "split_on sep cs") auto

lemma id_segment_parts: "\<exists>p ps. path_parts (lit ''ID_'' @ pid) = (73 # p) # ps \<and> path_root (lit ''ID_'' @ pid) = Rel"
proof -
  have "lit ''ID_'' @ pid = 73 # (68 # 95 # pid)" by (simp add: lit_def)
  moreover obtain p ps where "split_on 47 (73 # (68 # 95 # pid)) = (73 # p) # ps"
    using split_on_Cons_nonsep [of 73 47 "68 # 95 # pid"] by auto
  ultimately show ?thesis
    by (auto simp: path_parts_def path_root_def)
qed

lemma date_folder_shape:
  "\<exists>r ps. date_folder_of cfg info = Path r ps \<and> (r \<noteq> Rel \<or> (\<exists>p \<in> set ps. p \<noteq> []))"
proof -
  obtain r0 ps0 where sd: "save_dir cfg = Path r0 ps0" by (cases "save_dir cfg")
  obtain p ps where idp: "path_parts (lit ''ID_'' @ product_id info) = (73 # p) # ps"
    and idr: "path_root (lit ''ID_'' @ product_id info) = Rel"
    using id_segment_parts by blast
  show ?thesis
    by (cases "path_root (label_date info)") (simp_all add: date_folder_of_def sd idp idr)
qed

lemma filepath_nonempty: "path_str (filepath_of U cfg info) \<noteq> []"
proof -
  obtain r ps where df: "date_folder_of cfg info = Path r ps"
    and sh: "r \<noteq> Rel \<or> (\<exists>p \<in> set ps. p \<noteq> [])"
    using date_folder_shape by blast
  have "47 \<notin> set (filename_of U cfg info)"
    unfolding filename_of_def by (rule sanitize_no_slash)
  from no_slash_parts [OF this] df
  have fp: "filepath_of U cfg info = Path r (ps @ path_parts (filename_of U cfg info))"
    by (simp add: filepath_of_def)
  from sh show ?thesis
  proof
    assume "r \<noteq> Rel"
    then show ?thesis unfolding fp by (rule path_str_nonempty_root)
  next
    assume "\<exists>p \<in> set ps. p \<noteq> []"
    then obtain p where "p \<in> set (ps @ path_parts (filename_of U cfg info))" "p \<noteq> []" by auto
    then show ?thesis unfolding fp by (rule path_str_nonempty_parts)
  qed
qed

lemma filepath_of_classify: "filepath_of U cfg (classify cl img info) = filepath_of U cfg info"
  using classify_fields [of cl img info]
  by (simp add: filepath_of_def filename_of_def date_folder_of_def)

lemma date_folder_of_classify: "date_folder_of cfg (classify cl img info) = date_folder_of cfg info"
  using classify_fields [of cl img info]
  by (simp add: date_folder_of_def)

text \<open>
  C10. The value \<^verbatim>\<open>imwrite\<close> returns is discarded. When the folder could be created and
  the encoder returns false, the save still returns the file path, the same non-empty
  string it returns when the encoder has written the file; no file has been added; and
  the loop of \<^verbatim>\<open>run_once\<close> sets the path on the record and returns the record as saved.
\<close>

theorem save_ignores_imwrite_status:
  assumes mk: "mkdir_parents fs (date_folder_of cfg info) = Inr fs1"
    and nw: "imwrite (path_str (filepath_of U cfg info)) img (imwrite_params_of U cfg) = NotWritten"
  shows "save_screenshot U cfg imwrite fs img info = (Inr (path_str (filepath_of U cfg info)), fs1)
    \<and> path_str (filepath_of U cfg info) \<noteq> []
    \<and> files fs1 = files fs
    \<and> (\<forall>imwrite'. imwrite' (path_str (filepath_of U cfg info)) img (imwrite_params_of U cfg) = Written
          \<longrightarrow> fst (save_screenshot U cfg imwrite' fs img info) = Inr (path_str (filepath_of U cfg info)))
    \<and> (\<not> is_duplicate cfg fs info \<longrightarrow>
          save_loop U cfg cl imwrite img [info] fs [] =
            (Inr [(classify cl img info)\<lparr>filepath := path_str (filepath_of U cfg info)\<rparr>], fs1))"
proof (intro conjI allI impI)
  show s: "save_screenshot U cfg imwrite fs img info = (Inr (path_str (filepath_of U cfg info)), fs1)"
    using mk nw by (simp add: save_screenshot_def)
  show "path_str (filepath_of U cfg info) \<noteq> []" by (rule filepath_nonempty)
  show "files fs1 = files fs"
    using mk by (auto simp: mkdir_parents_def split: if_splits)
next
  fix imwrite' :: "str \<Rightarrow> 'a \<Rightarrow> imwrite_params \<Rightarrow> imwrite_result"
  assume "imwrite' (path_str (filepath_of U cfg info)) img (imwrite_params_of U cfg) = Written"
  with mk show "fst (save_screenshot U cfg imwrite' fs img info) = Inr (path_str (filepath_of U cfg info))"
    by (simp add: save_screenshot_def Let_def)
next
  assume nd: "\<not> is_duplicate cfg fs info"
  have "save_screenshot U cfg imwrite fs img (classify cl img info)
          = (Inr (path_str (filepath_of U cfg info)), fs1)"
    using mk nw by (simp add: save_screenshot_def filepath_of_classify date_folder_of_classify)
  with nd show "save_loop U cfg cl imwrite img [info] fs [] =
            (Inr [(classify cl img info)\<lparr>filepath := path_str (filepath_of U cfg info)\<rparr>], fs1)"
    by (simp add: Let_def)
qed

theorem save_ignores_imwrite_status_witness:
  "fst (save_screenshot ascii cfg0 imwrite_fails fs0 () rec0)
     = Inr (lit ''screenshots/ID_41/11-17/12.png'')
   \<and> files (snd (save_screenshot ascii cfg0 imwrite_fails fs0 () rec0)) = {}
   \<and> fst (save_loop ascii cfg0 None imwrite_fails () [rec0] fs0 [])
     = Inr [rec0\<lparr>filepath := lit ''screenshots/ID_41/11-17/12.png''\<rparr>]"
proof -
  let ?fs1 = "fs0\<lparr>dirs := dirs fs0 \<union> set (ancestors (date_folder_of cfg0 rec0))\<rparr>"
  have mk: "mkdir_parents fs0 (date_folder_of cfg0 rec0) = Inr ?fs1"
    by (simp add: store_defs eval_defs)
  have nw: "imwrite_fails (path_str (filepath_of ascii cfg0 rec0)) ()
              (imwrite_params_of ascii cfg0) = NotWritten"
    by (simp add: imwrite_fails_def)
  have p: "path_str (filepath_of ascii cfg0 rec0) = lit ''screenshots/ID_41/11-17/12.png''"
    by (simp add: store_defs eval_defs)
  have nd: "\<not> is_duplicate cfg0 fs0 rec0"
    by (simp add: store_defs eval_defs)
  have f: "files ?fs1 = {}" by (simp add: fs0_def)
  have c: "classify None () rec0 = rec0" by (simp add: classify_def)
  note t = save_ignores_imwrite_status [where U = ascii and cfg = cfg0 and cl = None
      and imwrite = imwrite_fails and img = "()" and fs = fs0 and ?fs1.0 = ?fs1
      and info = rec0, OF mk nw, unfolded p c]
  from t nd have a: "save_screenshot ascii cfg0 imwrite_fails fs0 () rec0
                       = (Inr (lit ''screenshots/ID_41/11-17/12.png''), ?fs1)"
    and b: "save_loop ascii cfg0 None imwrite_fails () [rec0] fs0 []
              = (Inr [rec0\<lparr>filepath := lit ''screenshots/ID_41/11-17/12.png''\<rparr>], ?fs1)"
    by blast+
  show ?thesis unfolding a b using f by simp
qed

end
